theory Spec2Isabelle
  imports Main "HOL-Library.Multiset" "HOL-Library.Sublist"
begin

section \<open>Data model\<close>

text \<open>
  The application (\<^verbatim>\<open>src/notes_frontend/src/App.js\<close>) keeps three pieces of state in
  the \<^verbatim>\<open>App\<close> component: the array \<^verbatim>\<open>notes\<close>, the selection \<^verbatim>\<open>selectedId\<close>
  (a string or \<^verbatim>\<open>null\<close>) and the search text \<^verbatim>\<open>query\<close>.  A note is the object
  \<^verbatim>\<open>{id, title, content, updatedAt}\<close> of the JSDoc typedef.  Strings are lists of
  code units below 256 (Isabelle's \<open>char\<close>); \<^verbatim>\<open>updatedAt\<close> is the integer number of
  milliseconds that \<^verbatim>\<open>Date.now()\<close> returns.  The two sources of nondeterminism,
  \<^verbatim>\<open>cryptoRandomId()\<close> and \<^verbatim>\<open>Date.now()\<close>, are arguments of the operations that
  read them.
\<close>

record Note =
  note_id :: string
  title :: string
  content :: string
  updatedAt :: int

text \<open>The argument of \<^verbatim>\<open>updateNote\<close>: an object that may carry \<^verbatim>\<open>title\<close> and \<^verbatim>\<open>content\<close>.\<close>

record patch =
  patch_title :: "string option"
  patch_content :: "string option"

record app =
  notes_st :: "Note list"
  selectedId :: "string option"
  query :: string

text \<open>What a JavaScript call hands back: a function body without \<^verbatim>\<open>return\<close> yields \<^verbatim>\<open>undefined\<close>.\<close>

datatype js_result = Undefined | Returned string

section \<open>Store operations\<close>

text \<open>
  \<^verbatim>\<open>const createNote = () => { const id = cryptoRandomId(); const now = Date.now();
    const newNote = {id, title: 'Untitled note', content: '', updatedAt: now};
    setNotes((prev) => [newNote, ...prev]); setSelectedId(id); }\<close>
\<close>

definition newNote :: "string \<Rightarrow> int \<Rightarrow> Note" where
  "newNote rid now = \<lparr>note_id = rid, title = ''Untitled note'', content = '''', updatedAt = now\<rparr>"

definition createNote :: "string \<Rightarrow> int \<Rightarrow> app \<Rightarrow> js_result \<times> app" where
  "createNote rid now st =
     (Undefined, st\<lparr>notes_st := newNote rid now # notes_st st, selectedId := Some rid\<rparr>)"

text \<open>
  \<^verbatim>\<open>const deleteNote = (id) => { setNotes((prev) => prev.filter((n) => n.id !== id));
    if (selectedId === id) setSelectedId(null); }\<close>
\<close>

definition deleteNote :: "string \<Rightarrow> app \<Rightarrow> app" where
  "deleteNote i st =
     st\<lparr>notes_st := filter (\<lambda>n. note_id n \<noteq> i) (notes_st st),
        selectedId := (if selectedId st = Some i then None else selectedId st)\<rparr>"

text \<open>
  \<^verbatim>\<open>const updateNote = (id, patch) => { setNotes((prev) =>
    prev.map((n) => (n.id === id ? { ...n, ...patch, updatedAt: Date.now() } : n))); }\<close>
  The object spread copies the note, overwrites the fields the patch has, and then sets
  \<^verbatim>\<open>updatedAt\<close>.
\<close>

definition spread :: "Note \<Rightarrow> patch \<Rightarrow> int \<Rightarrow> Note" where
  "spread n p now =
     n\<lparr>title := (case patch_title p of None \<Rightarrow> title n | Some t \<Rightarrow> t),
       content := (case patch_content p of None \<Rightarrow> content n | Some c \<Rightarrow> c),
       updatedAt := now\<rparr>"

definition updateNote :: "string \<Rightarrow> patch \<Rightarrow> int \<Rightarrow> app \<Rightarrow> app" where
  "updateNote i p now st =
     st\<lparr>notes_st := map (\<lambda>n. if note_id n = i then spread n p now else n) (notes_st st)\<rparr>"

text \<open>\<^verbatim>\<open>const selectNote = (id) => setSelectedId(id);\<close>\<close>

definition selectNote :: "string option \<Rightarrow> app \<Rightarrow> app" where
  "selectNote i st = st\<lparr>selectedId := i\<rparr>"

text \<open>
  \<^verbatim>\<open>const selectedNote = notes.find((n) => n.id === selectedId) || null\<close>:
  no note's id (a string) is strictly equal to \<^verbatim>\<open>null\<close>.
\<close>

definition selectedNote :: "app \<Rightarrow> Note option" where
  "selectedNote st =
     (case selectedId st of None \<Rightarrow> None
      | Some i \<Rightarrow> find (\<lambda>n. note_id n = i) (notes_st st))"

section \<open>Derived view model\<close>













section \<open>Sequences of store operations\<close>

text \<open>
  The three mutating operations as the user interface calls them, each at the clock
  reading \<^verbatim>\<open>Date.now()\<close> of its call; \<open>Create\<close> carries the identifier that
  \<^verbatim>\<open>cryptoRandomId()\<close> generated.
\<close>

datatype store_op = Create string | Update string patch | Delete string

fun apply_op :: "int \<Rightarrow> store_op \<Rightarrow> app \<Rightarrow> app" where
  "apply_op now (Create rid) st = snd (createNote rid now st)"
| "apply_op now (Update i p) st = updateNote i p now st"
| "apply_op now (Delete i) st = deleteNote i st"

fun run_ops :: "(int \<times> store_op) list \<Rightarrow> app \<Rightarrow> app" where
  "run_ops [] st = st"
| "run_ops ((now, f) # rest) st = run_ops rest (apply_op now f st)"

text \<open>Every generated identifier is new to the collection it is inserted into.\<close>

fun fresh_ids :: "(int \<times> store_op) list \<Rightarrow> app \<Rightarrow> bool" where
  "fresh_ids [] st = True"
| "fresh_ids ((now, Create rid) # rest) st =
     (rid \<notin> note_id ` set (notes_st st) \<and> fresh_ids rest (apply_op now (Create rid) st))"
| "fresh_ids ((now, f) # rest) st = fresh_ids rest (apply_op now f st)"

text \<open>
  The clock never goes back: the readings of the operations are non-decreasing, and the
  time stamps already in the collection were read before the first of them.
\<close>

definition clock_ok :: "(int \<times> store_op) list \<Rightarrow> app \<Rightarrow> bool" where
  "clock_ok ops st =
     (sorted (map fst ops) \<and> (\<forall>n \<in> set (notes_st st). \<forall>t \<in> set (map fst ops). updatedAt n \<le> t))"

section \<open>Editor session\<close>

text \<open>
  \<^verbatim>\<open>NoteEditor\<close> is rendered by \<^verbatim>\<open>App\<close> with \<^verbatim>\<open>key={selectedNote.id}\<close> whenever
  \<^verbatim>\<open>selectedNote\<close> is not null.  It holds the buffer \<^verbatim>\<open>title\<close>, \<^verbatim>\<open>content\<close> in
  two \<^verbatim>\<open>useState\<close> cells and runs the effect
  \<^verbatim>\<open>useEffect(() => { const id = setTimeout(() => onChange({ title, content }), 200);
    return () => clearTimeout(id); }, [title, content, onChange]);\<close>
  where \<^verbatim>\<open>onChange\<close> is the closure \<^verbatim>\<open>(patch) => updateNote(selectedNote.id, patch)\<close>
  that \<^verbatim>\<open>App\<close> builds anew in each of its renders.

  The framework's rules are written into the model as follows.
  \<^item> A state setter that is given the value the state already has does not re-render.
    \<^verbatim>\<open>setNotes\<close> always receives a new array (from \<^verbatim>\<open>filter\<close>, \<^verbatim>\<open>map\<close> or a
    spread), so every create, delete and update re-renders \<^verbatim>\<open>App\<close>.
  \<^item> A render of \<^verbatim>\<open>App\<close> unmounts the editor when no note is selected, mounts a new
    one when the selected note's id is not the mounted editor's key, and otherwise
    re-renders the mounted editor with a new \<^verbatim>\<open>onChange\<close>.
  \<^item> The effect runs on mount and whenever one of its dependencies has changed; its
    cleanup (\<^verbatim>\<open>clearTimeout\<close>) runs before the next run and on unmount.  So at most one
    timeout is pending, and it belongs to the mounted editor.
  \<^item> A timeout set at time \<open>t\<close> fires at \<open>t + 200\<close> if it is still pending, with the
    title, content and \<^verbatim>\<open>onChange\<close> of the render that set it.
  Time is in milliseconds; each event carries the time at which it happens.
\<close>

text \<open>The pending timeout: when it fires, and what its callback will pass to \<^verbatim>\<open>updateNote\<close>.\<close>

record timer =
  due :: int
  fire_id :: string
  fire_title :: string
  fire_content :: string

text \<open>The mounted \<^verbatim>\<open>NoteEditor\<close>: its key, its buffer and its pending timeout.\<close>

record editor =
  ed_key :: string
  ed_title :: string
  ed_content :: string
  ed_timer :: "timer option"

text \<open>
  The whole user interface: the state of \<^verbatim>\<open>App\<close>, the mounted editor if any, and the
  calls of \<^verbatim>\<open>updateNote\<close> made by timeouts so far (time, id, patch), oldest first.
\<close>

record session =
  app_st :: app
  editor_st :: "editor option"
  update_calls :: "(int \<times> string \<times> patch) list"

text \<open>\<^verbatim>\<open>setTimeout(() => onChange({ title, content }), 200)\<close> at time \<open>now\<close>.\<close>

definition schedule :: "int \<Rightarrow> string \<Rightarrow> string \<Rightarrow> string \<Rightarrow> timer" where
  "schedule now i t c = \<lparr>due = now + 200, fire_id = i, fire_title = t, fire_content = c\<rparr>"

text \<open>
  Mounting: \<^verbatim>\<open>useState(note.title || '')\<close>, \<^verbatim>\<open>useState(note.content || '')\<close> (for a
  string \<open>s\<close>, \<^verbatim>\<open>s || ''\<close> is \<open>s\<close>), then the effect runs.
\<close>

definition mount :: "int \<Rightarrow> Note \<Rightarrow> editor" where
  "mount now n =
     \<lparr>ed_key = note_id n, ed_title = title n, ed_content = content n,
      ed_timer = Some (schedule now (note_id n) (title n) (content n))\<rparr>"

text \<open>A render of \<^verbatim>\<open>App\<close> at time \<open>now\<close>.\<close>

definition rerender :: "int \<Rightarrow> session \<Rightarrow> session" where
  "rerender now s =
     (case selectedNote (app_st s) of
        None \<Rightarrow> s\<lparr>editor_st := None\<rparr>
      | Some n \<Rightarrow>
          (case editor_st s of
             None \<Rightarrow> s\<lparr>editor_st := Some (mount now n)\<rparr>
           | Some e \<Rightarrow>
               if ed_key e = note_id n
               then s\<lparr>editor_st := Some (e\<lparr>ed_timer :=
                        Some (schedule now (note_id n) (ed_title e) (ed_content e))\<rparr>)\<rparr>
               else s\<lparr>editor_st := Some (mount now n)\<rparr>))"

text \<open>
  What the user can do: the create buttons (with the id that will be generated), a
  delete button, a click on a note of the list, typing in the search box, typing in the
  editor's title input and in its content area (each with the input's new value).
\<close>

datatype event =
    Click_create string
  | Click_delete string
  | Click_select string
  | Type_query string
  | Type_title string
  | Type_content string

fun handle :: "int \<Rightarrow> event \<Rightarrow> session \<Rightarrow> session" where
  "handle now (Click_create rid) s =
     rerender now (s\<lparr>app_st := snd (createNote rid now (app_st s))\<rparr>)"
| "handle now (Click_delete i) s =
     rerender now (s\<lparr>app_st := deleteNote i (app_st s)\<rparr>)"
| "handle now (Click_select i) s =
     (if selectedId (app_st s) = Some i then s
      else rerender now (s\<lparr>app_st := selectNote (Some i) (app_st s)\<rparr>))"
| "handle now (Type_query q) s =
     (if query (app_st s) = q then s
      else rerender now (s\<lparr>app_st := (app_st s)\<lparr>query := q\<rparr>\<rparr>))"
| "handle now (Type_title t) s =
     (case editor_st s of
        None \<Rightarrow> s
      | Some e \<Rightarrow>
          if ed_title e = t then s
          else s\<lparr>editor_st := Some (e\<lparr>ed_title := t,
                   ed_timer := Some (schedule now (ed_key e) t (ed_content e))\<rparr>)\<rparr>)"
| "handle now (Type_content c) s =
     (case editor_st s of
        None \<Rightarrow> s
      | Some e \<Rightarrow>
          if ed_content e = c then s
          else s\<lparr>editor_st := Some (e\<lparr>ed_content := c,
                   ed_timer := Some (schedule now (ed_key e) (ed_title e) c)\<rparr>)\<rparr>)"

definition pending :: "session \<Rightarrow> timer option" where
  "pending s = (case editor_st s of None \<Rightarrow> None | Some e \<Rightarrow> ed_timer e)"

text \<open>
  The timeout fires: \<^verbatim>\<open>onChange({ title, content })\<close> calls \<^verbatim>\<open>updateNote\<close>, whose
  \<^verbatim>\<open>setNotes\<close> re-renders \<^verbatim>\<open>App\<close>.
\<close>

definition fire :: "timer \<Rightarrow> session \<Rightarrow> session" where
  "fire tm s =
     (let p = \<lparr>patch_title = Some (fire_title tm), patch_content = Some (fire_content tm)\<rparr>
      in rerender (due tm)
           (s\<lparr>app_st := updateNote (fire_id tm) p (due tm) (app_st s),
              editor_st := map_option (\<lambda>e. e\<lparr>ed_timer := None\<rparr>) (editor_st s),
              update_calls := update_calls s @ [(due tm, fire_id tm, p)]\<rparr>))"

lemma pending_fire:
  "pending (fire tm s) = None \<or> (\<exists>tm'. pending (fire tm s) = Some tm' \<and> due tm' = due tm + 200)"
  by (auto simp: pending_def fire_def rerender_def mount_def schedule_def Let_def
           split: option.splits)

text \<open>Let time pass until \<open>T\<close>, firing the timeouts that fall due.\<close>

function advance :: "int \<Rightarrow> session \<Rightarrow> session" where
  "advance T s =
     (case pending s of
        None \<Rightarrow> s
      | Some tm \<Rightarrow> if due tm \<le> T then advance T (fire tm s) else s)"
  by pat_completeness auto

termination
proof (relation "measure (\<lambda>(T, s). case pending s of None \<Rightarrow> 0 | Some tm \<Rightarrow> nat (T - due tm + 1))")
  show "wf (measure (\<lambda>(T, s). case pending s of None \<Rightarrow> 0 | Some tm \<Rightarrow> nat (T - due tm + 1)))"
    by simp
next
  fix T :: int and s :: session and tm :: timer
  assume p: "pending s = Some tm" and d: "due tm \<le> T"
  from pending_fire [of tm s]
  show "((T, fire tm s), (T, s))
      \<in> measure (\<lambda>(T, s). case pending s of None \<Rightarrow> 0 | Some tm \<Rightarrow> nat (T - due tm + 1))"
    using p d by (auto split: option.splits)
qed

text \<open>A timed sequence of events; a timeout due at the time of an event fires before it.\<close>

fun play :: "(int \<times> event) list \<Rightarrow> session \<Rightarrow> session" where
  "play [] s = s"
| "play ((t, e) # rest) s = play rest (handle t e (advance t s))"

text \<open>The first render: nothing selected, empty query, no editor.\<close>

definition start :: "Note list \<Rightarrow> session" where
  "start ns = \<lparr>app_st = \<lparr>notes_st = ns, selectedId = None, query = ''''\<rparr>,
               editor_st = None, update_calls = []\<rparr>"

text \<open>The id of the note the editor is bound to.\<close>

definition bound_key :: "session \<Rightarrow> string option" where
  "bound_key s = map_option ed_key (editor_st s)"

section \<open>Persistence\<close>

text \<open>
  The collection is kept in \<^verbatim>\<open>localStorage\<close> under the key \<^verbatim>\<open>notes_app_items_v1\<close> as
  the text \<^verbatim>\<open>JSON.stringify(notes)\<close> and read back with \<^verbatim>\<open>JSON.parse\<close>.  Both are
  functions of the platform; they are modelled here on the values the application
  stores: \<^verbatim>\<open>null\<close>, booleans, integer numbers (\<^verbatim>\<open>updatedAt\<close> is a \<^verbatim>\<open>Date.now()\<close>),
  strings of code units below 256, arrays, and objects as lists of properties in
  enumeration order.  A text with a fraction, an exponent or an escape above
  \<^verbatim>\<open>\u00ff\<close> denotes a value outside this model; the parser answers such a text like a
  syntax error.
\<close>

datatype json =
    JNull
  | JBool bool
  | JNum int
  | JStr string
  | JArr "json list"
  | JObj "(string \<times> json) list"

text \<open>The exceptions the initialiser of \<^verbatim>\<open>notes\<close> can meet.\<close>

datatype js_error = SyntaxError | SecurityError

subsection \<open>\<^verbatim>\<open>JSON.stringify\<close>\<close>

text \<open>
  \<^verbatim>\<open>QuoteJSONString\<close>: the quote and the backslash are escaped, the control characters
  have the short escapes \<^verbatim>\<open>\b \t \n \f \r\<close> or else \<^verbatim>\<open>\u00xx\<close> with lower-case hex
  digits, and every other code unit stands for itself.
\<close>

definition hexDigit :: "nat \<Rightarrow> char" where
  "hexDigit d = (if d < 10 then char_of (48 + d) else char_of (87 + d))"

definition quoteChar :: "char \<Rightarrow> string" where
  "quoteChar c =
     (let k = (of_char c :: nat)
      in if k = 8 then [CHR 0x5C, CHR ''b'']
         else if k = 9 then [CHR 0x5C, CHR ''t'']
         else if k = 10 then [CHR 0x5C, CHR ''n'']
         else if k = 12 then [CHR 0x5C, CHR ''f'']
         else if k = 13 then [CHR 0x5C, CHR ''r'']
         else if k = 34 then [CHR 0x5C, CHR 0x22]
         else if k = 92 then [CHR 0x5C, CHR 0x5C]
         else if k < 32 then [CHR 0x5C, CHR ''u'', CHR ''0'', CHR ''0'',
                              hexDigit (k div 16), hexDigit (k mod 16)]
         else [c])"

definition quoteJSONString :: "string \<Rightarrow> string" where
  "quoteJSONString s = CHR 0x22 # concat (map quoteChar s) @ [CHR 0x22]"

text \<open>An integer prints in decimal, with a minus sign when negative.\<close>

function showNat :: "nat \<Rightarrow> string" where
  "showNat n = (if n < 10 then [char_of (48 + n)] else showNat (n div 10) @ [char_of (48 + n mod 10)])"
  by pat_completeness auto

termination
  by (relation "measure id") auto

definition showInt :: "int \<Rightarrow> string" where
  "showInt i = (if i < 0 then CHR ''-'' # showNat (nat (- i)) else showNat (nat i))"

text \<open>Without an indent argument, the elements are joined by commas and nothing else.\<close>

fun commaSep :: "string list \<Rightarrow> string" where
  "commaSep [] = []"
| "commaSep [x] = x"
| "commaSep (x # y # r) = x @ CHR '','' # commaSep (y # r)"

fun JSON_stringify :: "json \<Rightarrow> string" where
  "JSON_stringify JNull = ''null''"
| "JSON_stringify (JBool b) = (if b then ''true'' else ''false'')"
| "JSON_stringify (JNum n) = showInt n"
| "JSON_stringify (JStr s) = quoteJSONString s"
| "JSON_stringify (JArr vs) = CHR ''['' # commaSep (map JSON_stringify vs) @ '']''"
| "JSON_stringify (JObj kvs) =
     CHR ''{'' # commaSep (map (\<lambda>kv. quoteJSONString (fst kv) @ CHR '':'' # JSON_stringify (snd kv)) kvs)
       @ ''}''"

subsection \<open>\<^verbatim>\<open>JSON.parse\<close>\<close>

text \<open>
  The text is cut into tokens, and the tokens are parsed by recursive descent.  White
  space (space, TAB, LF, CR) may stand between tokens.
\<close>

datatype token =
  LBrace | RBrace | LBrack | RBrack | Colon | Comma | TTrue | TFalse | TNull
  | TNum int | TStr string

definition isDigit :: "char \<Rightarrow> bool" where
  "isDigit c = (48 \<le> (of_char c :: nat) \<and> (of_char c :: nat) \<le> 57)"

definition digitVal :: "char \<Rightarrow> nat" where
  "digitVal c = of_char c - 48"

definition hexVal :: "char \<Rightarrow> nat option" where
  "hexVal c =
     (let k = (of_char c :: nat)
      in if 48 \<le> k \<and> k \<le> 57 then Some (k - 48)
         else if 97 \<le> k \<and> k \<le> 102 then Some (k - 87)
         else if 65 \<le> k \<and> k \<le> 70 then Some (k - 55)
         else None)"

definition unescape :: "char \<Rightarrow> char option" where
  "unescape e =
     (if e = CHR 0x22 then Some (CHR 0x22)
      else if e = CHR 0x5C then Some (CHR 0x5C)
      else if e = CHR ''/'' then Some (CHR ''/'')
      else if e = CHR ''b'' then Some (char_of (8 :: nat))
      else if e = CHR ''f'' then Some (char_of (12 :: nat))
      else if e = CHR ''n'' then Some (char_of (10 :: nat))
      else if e = CHR ''r'' then Some (char_of (13 :: nat))
      else if e = CHR ''t'' then Some (char_of (9 :: nat))
      else None)"

definition hex4 :: "char \<Rightarrow> char \<Rightarrow> char \<Rightarrow> char \<Rightarrow> nat option" where
  "hex4 a b c d =
     (case (hexVal a, hexVal b, hexVal c, hexVal d) of
        (Some w, Some x, Some y, Some z) \<Rightarrow> Some (((w * 16 + x) * 16 + y) * 16 + z)
      | _ \<Rightarrow> None)"

text \<open>
  One character of a string literal: an escape sequence, or a code unit that is neither
  a control character nor the closing quote.
\<close>

definition lexChar :: "string \<Rightarrow> (char \<times> string) option" where
  "lexChar cs =
     (case cs of
        [] \<Rightarrow> None
      | c # r \<Rightarrow>
          if c = CHR 0x5C then
            (case r of
               [] \<Rightarrow> None
             | e # r' \<Rightarrow>
                 if e = CHR ''u'' then
                   (case r' of
                      a # b # x # y # r'' \<Rightarrow>
                        (case hex4 a b x y of
                           None \<Rightarrow> None
                         | Some k \<Rightarrow> if k < 256 then Some (char_of k, r'') else None)
                    | _ \<Rightarrow> None)
                 else (case unescape e of None \<Rightarrow> None | Some d \<Rightarrow> Some (d, r')))
          else if (of_char c :: nat) < 32 \<or> c = CHR 0x22 then None
          else Some (c, r))"

lemma lexChar_shorter: "lexChar cs = Some (d, r) \<Longrightarrow> length r < length cs"
  by (auto simp: lexChar_def split: list.splits if_splits option.splits)

text \<open>The rest of a string literal after its opening quote, up to the closing quote.\<close>

function lexString :: "string \<Rightarrow> (string \<times> string) option" where
  "lexString [] = None"
| "lexString (c # cs) =
     (if c = CHR 0x22 then Some ([], cs)
      else (case lexChar (c # cs) of
              None \<Rightarrow> None
            | Some (d, r) \<Rightarrow>
                (case lexString r of None \<Rightarrow> None | Some (s, t) \<Rightarrow> Some (d # s, t))))"
  by pat_completeness auto

termination
  by (relation "measure length") (auto dest: lexChar_shorter)

text \<open>
  A number: an optional minus sign and digits without a leading zero.  JSON's grammar
  ends the integer part of \<^verbatim>\<open>01\<close> after the \<^verbatim>\<open>0\<close>, and no JSON text goes on with a
  digit there, so the tokeniser refuses it at once.
\<close>

definition digitsVal :: "string \<Rightarrow> nat" where
  "digitsVal ds = foldl (\<lambda>a d. 10 * a + digitVal d) 0 ds"

definition lexNat :: "string \<Rightarrow> (nat \<times> string) option" where
  "lexNat cs =
     (let ds = takeWhile isDigit cs; r = dropWhile isDigit cs
      in if ds = [] then None
         else if hd ds = CHR ''0'' \<and> length ds > 1 then None
         else if r \<noteq> [] \<and> hd r \<in> {CHR ''.'', CHR ''e'', CHR ''E''} then None
         else Some (digitsVal ds, r))"

definition lexNumber :: "string \<Rightarrow> (int \<times> string) option" where
  "lexNumber cs =
     (case cs of
        [] \<Rightarrow> None
      | c # r \<Rightarrow>
          if c = CHR ''-'' then
            (case lexNat r of None \<Rightarrow> None | Some (n, t) \<Rightarrow> Some (- int n, t))
          else (case lexNat cs of None \<Rightarrow> None | Some (n, t) \<Rightarrow> Some (int n, t)))"

definition isJsonSpace :: "char \<Rightarrow> bool" where
  "isJsonSpace c = ((of_char c :: nat) \<in> {9, 10, 13, 32})"

lemma lexString_shorter: "lexString cs = Some (s, t) \<Longrightarrow> length t < length cs"
proof (induction cs arbitrary: s t rule: lexString.induct)
  case 1
  then show ?case by simp
next
  case (2 c cs)
  show ?case
  proof (cases "c = CHR 0x22")
    case True
    with "2.prems" show ?thesis by simp
  next
    case False
    with "2.prems" obtain d r s' where
      ch: "lexChar (c # cs) = Some (d, r)" and l: "lexString r = Some (s', t)"
      by (auto split: option.splits)
    from "2.IH" [OF False ch refl l] lexChar_shorter [OF ch] show ?thesis by simp
  qed
qed

lemma lexNat_shorter: "lexNat cs = Some (n, t) \<Longrightarrow> length t < length cs"
proof -
  assume a: "lexNat cs = Some (n, t)"
  then have t: "t = dropWhile isDigit cs" and ne: "takeWhile isDigit cs \<noteq> []"
    by (auto simp: lexNat_def Let_def split: if_splits)
  have "length (takeWhile isDigit cs) + length (dropWhile isDigit cs) = length cs"
    by (metis length_append takeWhile_dropWhile_id)
  with ne t show ?thesis by (cases "takeWhile isDigit cs") auto
qed

lemma lexNumber_shorter: "lexNumber cs = Some (n, t) \<Longrightarrow> length t < length cs"
  by (auto simp: lexNumber_def split: list.splits if_splits option.splits dest!: lexNat_shorter)

text \<open>One token, from a first character that is not white space.\<close>

definition punct :: "char \<Rightarrow> token option" where
  "punct c =
     (if c = CHR ''{'' then Some LBrace
      else if c = CHR ''}'' then Some RBrace
      else if c = CHR ''['' then Some LBrack
      else if c = CHR '']'' then Some RBrack
      else if c = CHR '':'' then Some Colon
      else if c = CHR '','' then Some Comma
      else None)"

definition lexToken :: "char \<Rightarrow> string \<Rightarrow> (token \<times> string) option" where
  "lexToken c cs =
     (case punct c of
        Some tk \<Rightarrow> Some (tk, cs)
      | None \<Rightarrow>
          if c = CHR 0x22 then
            (case lexString cs of None \<Rightarrow> None | Some (s, r) \<Rightarrow> Some (TStr s, r))
          else if c = CHR ''-'' \<or> isDigit c then
            (case lexNumber (c # cs) of None \<Rightarrow> None | Some (n, r) \<Rightarrow> Some (TNum n, r))
          else if take 4 (c # cs) = ''true'' then Some (TTrue, drop 3 cs)
          else if take 5 (c # cs) = ''false'' then Some (TFalse, drop 4 cs)
          else if take 4 (c # cs) = ''null'' then Some (TNull, drop 3 cs)
          else None)"

lemma lexToken_shorter: "lexToken c cs = Some (tk, r) \<Longrightarrow> length r \<le> length cs"
  unfolding lexToken_def
  by (auto split: option.splits if_splits
           dest: lexString_shorter lexNumber_shorter less_imp_le)

function lexTokens :: "string \<Rightarrow> token list option" where
  "lexTokens [] = Some []"
| "lexTokens (c # cs) =
     (if isJsonSpace c then lexTokens cs
      else (case lexToken c cs of
              None \<Rightarrow> None
            | Some (tk, r) \<Rightarrow> (case lexTokens r of None \<Rightarrow> None | Some ts \<Rightarrow> Some (tk # ts))))"
  by pat_completeness auto

termination
  by (relation "measure length") (auto dest: lexToken_shorter)

text \<open>
  An object is built property by property.  A key that is already there keeps its
  place and takes the new value; a new key that is a canonical array index (below
  \<open>2\<^sup>3\<^sup>2 - 1\<close>) goes among the index keys, which are enumerated first in ascending
  order; any other new key goes to the end.
\<close>

definition isIndexKey :: "string \<Rightarrow> bool" where
  "isIndexKey k =
     (k \<noteq> [] \<and> list_all isDigit k \<and> (length k = 1 \<or> hd k \<noteq> CHR ''0'')
      \<and> int (digitsVal k) < 4294967295)"

fun putProp :: "string \<Rightarrow> json \<Rightarrow> (string \<times> json) list \<Rightarrow> (string \<times> json) list" where
  "putProp k v [] = [(k, v)]"
| "putProp k v ((k', v') # r) =
     (if k = k' then (k, v) # r
      else if isIndexKey k \<and> (\<not> isIndexKey k' \<or> digitsVal k < digitsVal k')
      then (k, v) # (k', v') # r
      else (k', v') # putProp k v r)"

definition makeObject :: "(string \<times> json) list \<Rightarrow> json" where
  "makeObject kvs = JObj (foldl (\<lambda>obj kv. putProp (fst kv) (snd kv) obj) [] kvs)"

text \<open>
  \<open>parseValue\<close> reads one value from the front of the tokens and returns it with the
  tokens left over; \<open>parseElems\<close> reads the elements of a non-empty array up to its
  closing bracket, \<open>parseMembers\<close> the members of a non-empty object up to its closing
  brace.  The comparisons of lengths hold whenever they are reached (a value consumes
  at least one token); they are there for the termination proof.
\<close>

function parseValue :: "token list \<Rightarrow> (json \<times> token list) option"
  and parseElems :: "token list \<Rightarrow> (json list \<times> token list) option"
  and parseMembers :: "token list \<Rightarrow> ((string \<times> json) list \<times> token list) option"
where
  "parseValue [] = None"
| "parseValue (tk # r) =
     (case tk of
        TNull \<Rightarrow> Some (JNull, r)
      | TTrue \<Rightarrow> Some (JBool True, r)
      | TFalse \<Rightarrow> Some (JBool False, r)
      | TNum n \<Rightarrow> Some (JNum n, r)
      | TStr s \<Rightarrow> Some (JStr s, r)
      | LBrack \<Rightarrow>
          (case r of
             RBrack # r' \<Rightarrow> Some (JArr [], r')
           | _ \<Rightarrow> (case parseElems r of None \<Rightarrow> None | Some (vs, r') \<Rightarrow> Some (JArr vs, r')))
      | LBrace \<Rightarrow>
          (case r of
             RBrace # r' \<Rightarrow> Some (JObj [], r')
           | _ \<Rightarrow> (case parseMembers r of None \<Rightarrow> None | Some (kvs, r') \<Rightarrow> Some (makeObject kvs, r')))
      | _ \<Rightarrow> None)"
| "parseElems ts =
     (case parseValue ts of
        None \<Rightarrow> None
      | Some (v, r) \<Rightarrow>
          (case r of
             Comma # r' \<Rightarrow>
               if length r' < length ts then
                 (case parseElems r' of None \<Rightarrow> None | Some (vs, t) \<Rightarrow> Some (v # vs, t))
               else None
           | RBrack # r' \<Rightarrow> Some ([v], r')
           | _ \<Rightarrow> None))"
| "parseMembers ts =
     (case ts of
        TStr k # Colon # r \<Rightarrow>
          (case parseValue r of
             None \<Rightarrow> None
           | Some (v, r') \<Rightarrow>
               (case r' of
                  Comma # r'' \<Rightarrow>
                    if length r'' < length ts then
                      (case parseMembers r'' of
                         None \<Rightarrow> None
                       | Some (kvs, t) \<Rightarrow> Some ((k, v) # kvs, t))
                    else None
                | RBrace # r'' \<Rightarrow> Some ([(k, v)], r'')
                | _ \<Rightarrow> None))
      | _ \<Rightarrow> None)"
  by pat_completeness auto

termination
  by (relation "measure (\<lambda>x. case x of
          Inl ts \<Rightarrow> 2 * length ts
        | Inr (Inl ts) \<Rightarrow> 2 * length ts + 1
        | Inr (Inr ts) \<Rightarrow> 2 * length ts + 1)")
     auto

text \<open>\<^verbatim>\<open>JSON.parse\<close> throws a \<^verbatim>\<open>SyntaxError\<close> unless the whole text is one value.\<close>

definition JSON_parse :: "string \<Rightarrow> js_error + json" where
  "JSON_parse s =
     (case lexTokens s of
        None \<Rightarrow> Inl SyntaxError
      | Some ts \<Rightarrow>
          (case parseValue ts of
             Some (v, []) \<Rightarrow> Inr v
           | _ \<Rightarrow> Inl SyntaxError))"

subsection \<open>Loading and saving\<close>

text \<open>
  \<^verbatim>\<open>localStorage.getItem(STORAGE_KEY)\<close> returns the stored text, or \<^verbatim>\<open>null\<close> when
  there is none; where the page may not use the storage, the access throws.
\<close>

datatype getItem_result = Throws | Returns "string option"

text \<open>
  The initialiser of the \<^verbatim>\<open>notes\<close> state:
  \<^verbatim>\<open>try { const raw = localStorage.getItem(STORAGE_KEY);
        return raw ? JSON.parse(raw) : []; } catch { return []; }\<close>
  \<open>load_try\<close> is the body of the \<^verbatim>\<open>try\<close> (\<^verbatim>\<open>null\<close> and the empty string are
  falsy), \<open>load\<close> adds the \<^verbatim>\<open>catch\<close>.
\<close>

definition load_try :: "getItem_result \<Rightarrow> js_error + json" where
  "load_try rd =
     (case rd of
        Throws \<Rightarrow> Inl SecurityError
      | Returns raw \<Rightarrow>
          (case raw of
             None \<Rightarrow> Inr (JArr [])
           | Some r \<Rightarrow> if r \<noteq> [] then JSON_parse r else Inr (JArr [])))"

definition load :: "getItem_result \<Rightarrow> js_error + json" where
  "load rd = (case load_try rd of Inl e \<Rightarrow> Inr (JArr []) | Inr v \<Rightarrow> Inr v)"

text \<open>
  The persisting effect: \<^verbatim>\<open>localStorage.setItem(STORAGE_KEY, JSON.stringify(notes))\<close>;
  \<open>save\<close> is the text it stores.
\<close>

definition save :: "json \<Rightarrow> string" where
  "save v = JSON_stringify v"

text \<open>
  A note as the JavaScript object it is, with its properties in the order of the object
  literal in \<^verbatim>\<open>createNote\<close>, which the spread in \<^verbatim>\<open>updateNote\<close> keeps.
\<close>

definition noteJson :: "Note \<Rightarrow> json" where
  "noteJson n =
     JObj [(''id'', JStr (note_id n)), (''title'', JStr (title n)),
           (''content'', JStr (content n)), (''updatedAt'', JNum (updatedAt n))]"

definition notesJson :: "Note list \<Rightarrow> json" where
  "notesJson ns = JArr (map noteJson ns)"



text \<open>
  For the proofs: the tokens of a value's text, what may follow a number in a text, and
  the values whose objects are as the parser builds them.
\<close>

definition numberEnd :: "string \<Rightarrow> bool" where
  "numberEnd rest =
     (case rest of [] \<Rightarrow> True
      | c # r \<Rightarrow> \<not> isDigit c \<and> c \<noteq> CHR ''.'' \<and> c \<noteq> CHR ''e'' \<and> c \<noteq> CHR ''E'')"

fun sepTokens :: "token list list \<Rightarrow> token list" where
  "sepTokens [] = []"
| "sepTokens [x] = x"
| "sepTokens (x # y # r) = x @ Comma # sepTokens (y # r)"

fun tokens :: "json \<Rightarrow> token list" where
  "tokens JNull = [TNull]"
| "tokens (JBool b) = [if b then TTrue else TFalse]"
| "tokens (JNum n) = [TNum n]"
| "tokens (JStr s) = [TStr s]"
| "tokens (JArr vs) = LBrack # sepTokens (map tokens vs) @ [RBrack]"
| "tokens (JObj kvs) =
     LBrace # sepTokens (map (\<lambda>kv. TStr (fst kv) # Colon # tokens (snd kv)) kvs) @ [RBrace]"

fun canonical :: "json \<Rightarrow> bool" where
  "canonical (JArr vs) = list_all canonical vs"
| "canonical (JObj kvs) = (makeObject kvs = JObj kvs \<and> list_all (\<lambda>kv. canonical (snd kv)) kvs)"
| "canonical v = True"

section \<open>Example data\<close>

text \<open>Concrete inputs for the witnesses and counterexamples below.\<close>

text \<open>The two notes of the specification's scenario.\<close>

definition noteA :: Note where
  "noteA = \<lparr>note_id = ''a'', title = ''Shopping'', content = ''milk'', updatedAt = 100\<rparr>"

definition noteB :: Note where
  "noteB = \<lparr>note_id = ''b'', title = ''Work'', content = '''', updatedAt = 200\<rparr>"

definition demo_store :: app where
  "demo_store = \<lparr>notes_st = [noteA, noteB], selectedId = None, query = ''''\<rparr>"

definition demo_selected :: app where
  "demo_selected = \<lparr>notes_st = [noteA, noteB], selectedId = Some ''a'', query = ''''\<rparr>"

text \<open>A selection that refers to no note of the collection.\<close>

definition demo_dangling :: app where
  "demo_dangling = \<lparr>notes_st = [noteA, noteB], selectedId = Some ''gone'', query = ''''\<rparr>"

definition demo_ops1 :: "(int \<times> store_op) list" where
  "demo_ops1 = [(300, Update ''a'' \<lparr>patch_title = Some ''Groceries'', patch_content = None\<rparr>)]"

definition demo_ops2 :: "(int \<times> store_op) list" where
  "demo_ops2 = [(400, Create ''c''), (400, Delete ''b''),
                (500, Update ''a'' \<lparr>patch_title = None, patch_content = Some ''eggs''\<rparr>)]"


section \<open>Properties of the store operations\<close>

lemma deleteNote_notes: "notes_st (deleteNote i st) = filter (\<lambda>n. note_id n \<noteq> i) (notes_st st)"
  by (simp add: deleteNote_def)

lemma deleteNote_selectedId:
  "selectedId (deleteNote i st) = (if selectedId st = Some i then None else selectedId st)"
  by (simp add: deleteNote_def)

lemma filter_absent_id: "i \<notin> note_id ` set ns \<Longrightarrow> filter (\<lambda>n. note_id n \<noteq> i) ns = ns"
  by (induction ns) auto

text \<open>
  Claim C2, as the code has it: \<^verbatim>\<open>createNote\<close> has no \<^verbatim>\<open>return\<close> statement, so
  the call yields \<^verbatim>\<open>undefined\<close>.  The note it inserts is the head of the collection,
  carries the generated id, and that id becomes the selection.
\<close>

theorem createNote_yields_undefined:
  "fst (createNote rid now st) = Undefined
   \<and> notes_st (snd (createNote rid now st)) = newNote rid now # notes_st st
   \<and> note_id (hd (notes_st (snd (createNote rid now st)))) = rid
   \<and> selectedId (snd (createNote rid now st)) = Some rid"
  by (simp add: createNote_def newNote_def)

text \<open>
  Claim C2 as written (the value returned by create is the id of the new note) fails:
  on a store of two notes, with generated id \<open>n1\<close>, the call returns \<^verbatim>\<open>undefined\<close>.
\<close>

theorem createNote_returns_id_counterexample:
  "fst (createNote ''n1'' 1000 demo_store)
     \<noteq> Returned (note_id (hd (notes_st (snd (createNote ''n1'' 1000 demo_store)))))"
  by (simp add: createNote_def)



text \<open>
  Claim C9: when the selection is \<open>i\<close> and no note has id \<open>i\<close> (a dangling selection),
  \<^verbatim>\<open>deleteNote(i)\<close> clears the selection and leaves the collection as it was.
\<close>

theorem deleteNote_dangling_selection:
  "selectedId st = Some i \<Longrightarrow> i \<notin> note_id ` set (notes_st st) \<Longrightarrow>
     selectedId (deleteNote i st) = None \<and> notes_st (deleteNote i st) = notes_st st"
  by (simp add: deleteNote_notes deleteNote_selectedId filter_absent_id)

theorem deleteNote_dangling_selection_witness:
  "selectedId demo_dangling = Some ''gone''
   \<and> ''gone'' \<notin> note_id ` set (notes_st demo_dangling)
   \<and> selectedId (deleteNote ''gone'' demo_dangling) = None
   \<and> notes_st (deleteNote ''gone'' demo_dangling) = [noteA, noteB]"
proof -
  have sel: "selectedId demo_dangling = Some ''gone''"
    by (simp add: demo_dangling_def)
  have absent: "''gone'' \<notin> note_id ` set (notes_st demo_dangling)"
    by (simp add: demo_dangling_def noteA_def noteB_def)
  from deleteNote_dangling_selection [OF sel absent] sel absent
  show ?thesis by (simp add: demo_dangling_def)
qed

lemma updateNote_notes:
  "notes_st (updateNote i p now st)
     = map (\<lambda>n. if note_id n = i then spread n p now else n) (notes_st st)"
  by (simp add: updateNote_def)

lemma map_absent_id:
  "i \<notin> note_id ` set ns \<Longrightarrow> map (\<lambda>n. if note_id n = i then f n else n) ns = ns"
  by (induction ns) auto

text \<open>
  Claim C6: \<^verbatim>\<open>updateNote(id, patch)\<close> keeps the length and the positions of the
  collection; a note with another id is unchanged; a note with the id keeps its id,
  takes the patch's title and content where the patch has them and keeps its own where
  it has not, and gets the current time as \<^verbatim>\<open>updatedAt\<close>; when no note has the id, the
  collection is unchanged.  Selection and query are not touched.
\<close>

theorem updateNote_spec:
  "length (notes_st (updateNote i p now st)) = length (notes_st st)
   \<and> (\<forall>k < length (notes_st st).
        (note_id (notes_st st ! k) \<noteq> i \<longrightarrow>
           notes_st (updateNote i p now st) ! k = notes_st st ! k)
        \<and> (note_id (notes_st st ! k) = i \<longrightarrow>
           note_id (notes_st (updateNote i p now st) ! k) = i
           \<and> updatedAt (notes_st (updateNote i p now st) ! k) = now
           \<and> title (notes_st (updateNote i p now st) ! k)
               = (case patch_title p of None \<Rightarrow> title (notes_st st ! k) | Some t \<Rightarrow> t)
           \<and> content (notes_st (updateNote i p now st) ! k)
               = (case patch_content p of None \<Rightarrow> content (notes_st st ! k) | Some c \<Rightarrow> c)))
   \<and> (i \<notin> note_id ` set (notes_st st) \<longrightarrow> notes_st (updateNote i p now st) = notes_st st)
   \<and> selectedId (updateNote i p now st) = selectedId st
   \<and> query (updateNote i p now st) = query st"
proof -
  have len: "length (notes_st (updateNote i p now st)) = length (notes_st st)"
    by (simp add: updateNote_notes)
  have pointwise: "\<forall>k < length (notes_st st).
        (note_id (notes_st st ! k) \<noteq> i \<longrightarrow>
           notes_st (updateNote i p now st) ! k = notes_st st ! k)
        \<and> (note_id (notes_st st ! k) = i \<longrightarrow>
           note_id (notes_st (updateNote i p now st) ! k) = i
           \<and> updatedAt (notes_st (updateNote i p now st) ! k) = now
           \<and> title (notes_st (updateNote i p now st) ! k)
               = (case patch_title p of None \<Rightarrow> title (notes_st st ! k) | Some t \<Rightarrow> t)
           \<and> content (notes_st (updateNote i p now st) ! k)
               = (case patch_content p of None \<Rightarrow> content (notes_st st ! k) | Some c \<Rightarrow> c))"
    by (simp add: updateNote_notes spread_def)
  have absent: "i \<notin> note_id ` set (notes_st st) \<longrightarrow> notes_st (updateNote i p now st) = notes_st st"
    by (simp add: updateNote_notes map_absent_id)
  have frame: "selectedId (updateNote i p now st) = selectedId st
      \<and> query (updateNote i p now st) = query st"
    by (simp add: updateNote_def)
  from len pointwise absent frame show ?thesis by blast
qed

theorem updateNote_spec_witness:
  "notes_st (updateNote ''a'' \<lparr>patch_title = Some ''Groceries'', patch_content = None\<rparr> 500
       demo_selected)
     = [\<lparr>note_id = ''a'', title = ''Groceries'', content = ''milk'', updatedAt = 500\<rparr>, noteB]
   \<and> notes_st (updateNote ''z'' \<lparr>patch_title = Some ''Groceries'', patch_content = None\<rparr> 500
       demo_selected)
     = [noteA, noteB]"
  using
    updateNote_spec [of "''a''" "\<lparr>patch_title = Some ''Groceries'', patch_content = None\<rparr>" 500
      demo_selected]
    updateNote_spec [of "''z''" "\<lparr>patch_title = Some ''Groceries'', patch_content = None\<rparr>" 500
      demo_selected]
  by (simp add: updateNote_def spread_def demo_selected_def noteA_def noteB_def)

section \<open>Properties of the derived view model\<close>



















section \<open>Properties of sequences of store operations\<close>

lemma run_ops_append: "run_ops (xs @ ys) st = run_ops ys (run_ops xs st)"
  by (induction xs st rule: run_ops.induct) auto

lemma fresh_ids_append:
  "fresh_ids (xs @ ys) st = (fresh_ids xs st \<and> fresh_ids ys (run_ops xs st))"
  by (induction xs st rule: fresh_ids.induct) auto

lemma apply_op_distinct:
  "distinct (map note_id (notes_st st)) \<Longrightarrow> fresh_ids [(now, f)] st \<Longrightarrow>
     distinct (map note_id (notes_st (apply_op now f st)))"
proof (cases f)
  case (Create rid)
  assume "distinct (map note_id (notes_st st))" "fresh_ids [(now, f)] st"
  with Create show ?thesis by (simp add: createNote_def newNote_def)
next
  case (Update i p)
  have "map note_id (notes_st (updateNote i p now st)) = map note_id (notes_st st)"
    by (simp add: updateNote_def spread_def)
  moreover assume "distinct (map note_id (notes_st st))"
  ultimately show ?thesis using Update by simp
next
  case (Delete i)
  assume "distinct (map note_id (notes_st st))"
  with Delete show ?thesis by (simp add: deleteNote_def distinct_map_filter)
qed

lemma fresh_ids_Cons:
  "fresh_ids ((now, f) # rest) st = (fresh_ids [(now, f)] st \<and> fresh_ids rest (apply_op now f st))"
  by (cases f) auto

lemma run_ops_distinct:
  "distinct (map note_id (notes_st st)) \<Longrightarrow> fresh_ids ops st \<Longrightarrow>
     distinct (map note_id (notes_st (run_ops ops st)))"
proof (induction ops arbitrary: st)
  case Nil
  then show ?case by simp
next
  case (Cons a ops)
  obtain now f where a: "a = (now, f)" by (cases a)
  from Cons.prems(2) have "fresh_ids [(now, f)] st" "fresh_ids ops (apply_op now f st)"
    unfolding a using fresh_ids_Cons by blast+
  with Cons.IH [of "apply_op now f st"] apply_op_distinct [OF Cons.prems(1)]
  show ?case by (simp add: a)
qed

lemma apply_op_stamp:
  "n' \<in> set (notes_st (apply_op now f st)) \<Longrightarrow> n' \<in> set (notes_st st) \<or> updatedAt n' = now"
  by (cases f) (auto simp: createNote_def newNote_def updateNote_def spread_def deleteNote_def
                     split: if_splits)

lemma run_ops_stamp:
  "n' \<in> set (notes_st (run_ops ops st)) \<Longrightarrow>
     n' \<in> set (notes_st st) \<or> updatedAt n' \<in> set (map fst ops)"
proof (induction ops arbitrary: st)
  case Nil
  then show ?case by simp
next
  case (Cons a ops)
  obtain now f where a: "a = (now, f)" by (cases a)
  from Cons.prems have "n' \<in> set (notes_st (run_ops ops (apply_op now f st)))"
    by (simp add: a)
  from Cons.IH [OF this] apply_op_stamp [of n' now f st] show ?case
    by (auto simp: a)
qed

text \<open>
  Claim C8: from a collection with pairwise distinct ids, under freshly generated ids
  and a clock that never goes back, the ids stay pairwise distinct after every sequence
  of operations, and between any two points of the sequence the \<^verbatim>\<open>updatedAt\<close> of a
  note (followed by its id) does not decrease.
\<close>

theorem store_invariants:
  assumes ids: "distinct (map note_id (notes_st st))"
      and fresh: "fresh_ids (ops1 @ ops2) st"
      and clock: "clock_ok (ops1 @ ops2) st"
  shows "distinct (map note_id (notes_st (run_ops ops1 st)))
     \<and> distinct (map note_id (notes_st (run_ops (ops1 @ ops2) st)))
     \<and> (\<forall>n \<in> set (notes_st (run_ops ops1 st)).
          \<forall>n' \<in> set (notes_st (run_ops (ops1 @ ops2) st)).
            note_id n = note_id n' \<longrightarrow> updatedAt n \<le> updatedAt n')"
proof -
  let ?mid = "run_ops ops1 st"
  from fresh have f1: "fresh_ids ops1 st" and f2: "fresh_ids ops2 ?mid"
    by (simp_all add: fresh_ids_append)
  have d1: "distinct (map note_id (notes_st ?mid))"
    by (rule run_ops_distinct [OF ids f1])
  have d2: "distinct (map note_id (notes_st (run_ops (ops1 @ ops2) st)))"
    by (rule run_ops_distinct [OF ids fresh])
  have mono: "updatedAt n \<le> updatedAt n'"
    if n: "n \<in> set (notes_st ?mid)"
      and n': "n' \<in> set (notes_st (run_ops (ops1 @ ops2) st))"
      and same: "note_id n = note_id n'" for n n'
  proof -
    from n' have "n' \<in> set (notes_st (run_ops ops2 ?mid))" by (simp add: run_ops_append)
    from run_ops_stamp [OF this]
    show ?thesis
    proof
      assume "n' \<in> set (notes_st ?mid)"
      with d1 n same have "n' = n" by (auto simp: distinct_map dest: inj_onD)
      then show ?thesis by simp
    next
      assume late: "updatedAt n' \<in> set (map fst ops2)"
      from run_ops_stamp [OF n] show ?thesis
      proof
        assume "n \<in> set (notes_st st)"
        with clock late show ?thesis by (auto simp: clock_ok_def)
      next
        assume "updatedAt n \<in> set (map fst ops1)"
        with clock late show ?thesis by (fastforce simp: clock_ok_def sorted_append)
      qed
    qed
  qed
  from d1 d2 mono show ?thesis by blast
qed

theorem store_invariants_witness:
  "distinct (map note_id (notes_st demo_store))
   \<and> fresh_ids (demo_ops1 @ demo_ops2) demo_store
   \<and> clock_ok (demo_ops1 @ demo_ops2) demo_store
   \<and> notes_st (run_ops demo_ops1 demo_store)
       = [\<lparr>note_id = ''a'', title = ''Groceries'', content = ''milk'', updatedAt = 300\<rparr>, noteB]
   \<and> notes_st (run_ops (demo_ops1 @ demo_ops2) demo_store)
       = [\<lparr>note_id = ''c'', title = ''Untitled note'', content = '''', updatedAt = 400\<rparr>,
          \<lparr>note_id = ''a'', title = ''Groceries'', content = ''eggs'', updatedAt = 500\<rparr>]"
proof -
  have ids: "distinct (map note_id (notes_st demo_store))" by code_simp
  have fresh: "fresh_ids (demo_ops1 @ demo_ops2) demo_store" by code_simp
  have clock: "clock_ok (demo_ops1 @ demo_ops2) demo_store" by code_simp
  have mid: "notes_st (run_ops demo_ops1 demo_store)
       = [\<lparr>note_id = ''a'', title = ''Groceries'', content = ''milk'', updatedAt = 300\<rparr>, noteB]"
    by code_simp
  have fin: "notes_st (run_ops (demo_ops1 @ demo_ops2) demo_store)
       = [\<lparr>note_id = ''c'', title = ''Untitled note'', content = '''', updatedAt = 400\<rparr>,
          \<lparr>note_id = ''a'', title = ''Groceries'', content = ''eggs'', updatedAt = 500\<rparr>]"
    by code_simp
  from store_invariants [OF ids fresh clock] ids fresh clock mid fin
  show ?thesis by simp
qed

section \<open>Properties of the editor session\<close>

declare advance.simps [simp del]

lemma advance_idle: "pending s = None \<Longrightarrow> advance T s = s"
  by (subst advance.simps) simp

lemma advance_early: "pending s = Some tm \<Longrightarrow> T < due tm \<Longrightarrow> advance T s = s"
  by (subst advance.simps) simp

lemma advance_due: "pending s = Some tm \<Longrightarrow> due tm \<le> T \<Longrightarrow> advance T s = advance T (fire tm s)"
  by (subst advance.simps) simp

lemma rerender_frame:
  "app_st (rerender now s) = app_st s \<and> update_calls (rerender now s) = update_calls s"
  by (simp add: rerender_def split: option.splits)

lemma rerender_binds:
  assumes "bound_key (rerender now s) = Some k" and "bound_key s \<noteq> Some k"
  shows "\<exists>n. selectedNote (app_st s) = Some n \<and> note_id n = k
           \<and> editor_st (rerender now s) = Some (mount now n)"
  using assms
  by (auto simp: bound_key_def rerender_def mount_def split: option.splits if_splits)

lemma handle_frame: "update_calls (handle now e s) = update_calls s"
  by (cases e) (auto simp: rerender_frame split: option.splits)

lemma handle_binds:
  assumes "bound_key (handle now e s) = Some k" and "bound_key s \<noteq> Some k"
  shows "\<exists>n. selectedNote (app_st (handle now e s)) = Some n \<and> note_id n = k
           \<and> editor_st (handle now e s) = Some (mount now n)"
proof (cases e)
  case (Click_create rid)
  let ?s0 = "s\<lparr>app_st := snd (createNote rid now (app_st s))\<rparr>"
  have "bound_key ?s0 \<noteq> Some k" using assms(2) by (simp add: bound_key_def)
  from rerender_binds [OF _ this, of now] assms(1) Click_create
  show ?thesis by (simp add: rerender_frame)
next
  case (Click_delete i)
  let ?s0 = "s\<lparr>app_st := deleteNote i (app_st s)\<rparr>"
  have "bound_key ?s0 \<noteq> Some k" using assms(2) by (simp add: bound_key_def)
  from rerender_binds [OF _ this, of now] assms(1) Click_delete
  show ?thesis by (simp add: rerender_frame)
next
  case (Click_select i)
  let ?s0 = "s\<lparr>app_st := selectNote (Some i) (app_st s)\<rparr>"
  have "bound_key ?s0 \<noteq> Some k" using assms(2) by (simp add: bound_key_def)
  from rerender_binds [OF _ this, of now] assms Click_select
  show ?thesis by (simp add: rerender_frame split: if_splits)
next
  case (Type_query q)
  let ?s0 = "s\<lparr>app_st := (app_st s)\<lparr>query := q\<rparr>\<rparr>"
  have "bound_key ?s0 \<noteq> Some k" using assms(2) by (simp add: bound_key_def)
  from rerender_binds [OF _ this, of now] assms Type_query
  show ?thesis by (simp add: rerender_frame split: if_splits)
next
  case (Type_title t)
  with assms show ?thesis by (auto simp: bound_key_def split: option.splits if_splits)
next
  case (Type_content c)
  with assms show ?thesis by (auto simp: bound_key_def split: option.splits if_splits)
qed

lemma find_map_spread:
  "find (\<lambda>m. note_id m = k) ns = Some n \<Longrightarrow>
   find (\<lambda>m. note_id m = k) (map (\<lambda>m. if note_id m = k then spread m p now else m) ns)
     = Some (spread n p now)"
  by (induction ns) (auto simp: spread_def)

lemma find_Some_id: "find (\<lambda>m. note_id m = k) ns = Some n \<Longrightarrow> note_id n = k"
  by (induction ns) (auto split: if_splits)

lemma spread_own:
  "spread n \<lparr>patch_title = Some (title n), patch_content = Some (content n)\<rparr> now
     = n\<lparr>updatedAt := now\<rparr>"
  by (simp add: spread_def)

lemma fire_fresh_mount:
  assumes sel: "selectedNote (app_st s) = Some n"
      and ed: "editor_st s = Some (mount t n)"
  defines "tm \<equiv> schedule t (note_id n) (title n) (content n)"
  shows "update_calls (fire tm s)
           = update_calls s @ [(t + 200, note_id n,
               \<lparr>patch_title = Some (title n), patch_content = Some (content n)\<rparr>)]"
    and "selectedNote (app_st (fire tm s)) = Some (n\<lparr>updatedAt := t + 200\<rparr>)"
    and "pending (fire tm s) = Some (schedule (t + 200) (note_id n) (title n) (content n))"
proof -
  from sel obtain i where i: "selectedId (app_st s) = Some i"
      and f: "find (\<lambda>m. note_id m = i) (notes_st (app_st s)) = Some n"
    by (auto simp: selectedNote_def split: option.splits)
  from find_Some_id [OF f] have k: "note_id n = i" .
  let ?p = "\<lparr>patch_title = Some (title n), patch_content = Some (content n)\<rparr>"
  have sel': "selectedNote (updateNote i ?p (t + 200) (app_st s)) = Some (n\<lparr>updatedAt := t + 200\<rparr>)"
    using find_map_spread [OF f, of ?p "t + 200"] i
    by (simp add: selectedNote_def updateNote_def spread_own)
  show "update_calls (fire tm s)
           = update_calls s @ [(t + 200, note_id n, ?p)]"
    by (simp add: fire_def tm_def schedule_def rerender_frame Let_def)
  show "selectedNote (app_st (fire tm s)) = Some (n\<lparr>updatedAt := t + 200\<rparr>)"
    using sel' by (simp add: fire_def tm_def schedule_def rerender_frame Let_def k)
  show "pending (fire tm s) = Some (schedule (t + 200) (note_id n) (title n) (content n))"
    using sel' ed
    by (simp add: fire_def tm_def schedule_def rerender_def Let_def k pending_def mount_def)
qed

text \<open>
  Claim C10: whenever an event at time \<open>t\<close> makes a note the editor's target (the
  editor is bound to \<open>k\<close> after the event and was not before), the note \<open>n\<close> with id \<open>k\<close>
  is the selected note, a timeout carrying its own title and content is pending for
  \<open>t + 200\<close>, and with no further event nothing is sent to \<^verbatim>\<open>updateNote\<close> up to
  \<open>t + 199\<close>, while at \<open>t + 200\<close> \<^verbatim>\<open>updateNote\<close> is called with the note's unchanged
  title and content, after which the note differs from \<open>n\<close> in \<^verbatim>\<open>updatedAt\<close> only,
  which is \<open>t + 200\<close>.
\<close>

theorem commit_scheduled_on_binding:
  assumes "bound_key (handle t e s) = Some k" and "bound_key s \<noteq> Some k"
  shows "\<exists>n. selectedNote (app_st (handle t e s)) = Some n \<and> note_id n = k
     \<and> pending (handle t e s) = Some (schedule t k (title n) (content n))
     \<and> update_calls (advance (t + 199) (handle t e s)) = update_calls s
     \<and> update_calls (advance (t + 200) (handle t e s))
         = update_calls s @ [(t + 200, k,
             \<lparr>patch_title = Some (title n), patch_content = Some (content n)\<rparr>)]
     \<and> selectedNote (app_st (advance (t + 200) (handle t e s))) = Some (n\<lparr>updatedAt := t + 200\<rparr>)"
proof -
  let ?s = "handle t e s"
  from handle_binds [OF assms] obtain n where
    sel: "selectedNote (app_st ?s) = Some n" and k: "note_id n = k"
    and ed: "editor_st ?s = Some (mount t n)" by blast
  let ?tm = "schedule t (note_id n) (title n) (content n)"
  have p: "pending ?s = Some ?tm" using ed by (simp add: pending_def mount_def)
  have before: "advance (t + 199) ?s = ?s"
    by (rule advance_early [OF p]) (simp add: schedule_def)
  have "advance (t + 200) ?s = advance (t + 200) (fire ?tm ?s)"
    by (rule advance_due [OF p]) (simp add: schedule_def)
  also have "\<dots> = fire ?tm ?s"
    by (rule advance_early [OF fire_fresh_mount(3) [OF sel ed]]) (simp add: schedule_def)
  finally have at: "advance (t + 200) ?s = fire ?tm ?s" .
  from sel k p before at fire_fresh_mount(1,2) [OF sel ed] handle_frame [of t e s]
  show ?thesis by auto
qed

theorem commit_scheduled_on_binding_witness:
  "bound_key (handle 1000 (Click_select ''b'') (start [noteA, noteB])) = Some ''b''
   \<and> bound_key (start [noteA, noteB]) \<noteq> Some ''b''
   \<and> selectedNote (app_st (handle 1000 (Click_select ''b'') (start [noteA, noteB]))) = Some noteB
   \<and> update_calls (advance 1200 (handle 1000 (Click_select ''b'') (start [noteA, noteB])))
       = [(1200, ''b'', \<lparr>patch_title = Some ''Work'', patch_content = Some ''''\<rparr>)]
   \<and> selectedNote (app_st (advance 1200 (handle 1000 (Click_select ''b'') (start [noteA, noteB]))))
       = Some \<lparr>note_id = ''b'', title = ''Work'', content = '''', updatedAt = 1200\<rparr>"
proof -
  let ?s = "handle 1000 (Click_select ''b'') (start [noteA, noteB])"
  have after: "bound_key ?s = Some ''b''" by code_simp
  have before: "bound_key (start [noteA, noteB]) \<noteq> Some ''b''" by code_simp
  have sel: "selectedNote (app_st ?s) = Some noteB" by code_simp
  from commit_scheduled_on_binding [OF after before] sel
  have "update_calls (advance (1000 + 200) ?s)
          = update_calls (start [noteA, noteB])
              @ [(1000 + 200, ''b'', \<lparr>patch_title = Some (title noteB), patch_content = Some (content noteB)\<rparr>)]
        \<and> selectedNote (app_st (advance (1000 + 200) ?s)) = Some (noteB\<lparr>updatedAt := 1000 + 200\<rparr>)"
    by auto
  with after before sel show ?thesis by (simp add: start_def noteB_def)
qed

text \<open>
  Every commit re-arms the timeout: when the timeout of the editor of the selected note
  fires, the render that follows sets a new one for 200 milliseconds later with the
  same buffer, so the calls of \<^verbatim>\<open>updateNote\<close> go on for as long as the note stays open.
\<close>

lemma commit_rearms_timer:
  assumes sel: "selectedNote (app_st s) = Some n"
      and ed: "editor_st s = Some e" "ed_key e = note_id n"
      and tm: "fire_id tm = note_id n"
  shows "pending (fire tm s) = Some (schedule (due tm) (note_id n) (ed_title e) (ed_content e))"
    and "length (update_calls (fire tm s)) = Suc (length (update_calls s))"
proof -
  let ?p = "\<lparr>patch_title = Some (fire_title tm), patch_content = Some (fire_content tm)\<rparr>"
  from sel obtain i where i: "selectedId (app_st s) = Some i"
      and f: "find (\<lambda>m. note_id m = i) (notes_st (app_st s)) = Some n"
    by (auto simp: selectedNote_def split: option.splits)
  from find_Some_id [OF f] have k: "note_id n = i" .
  have sel': "selectedNote (updateNote i ?p (due tm) (app_st s)) = Some (spread n ?p (due tm))"
    using find_map_spread [OF f, of ?p "due tm"] i
    by (simp add: selectedNote_def updateNote_def)
  have id': "note_id (spread n ?p (due tm)) = i" by (simp add: spread_def k)
  show "pending (fire tm s) = Some (schedule (due tm) (note_id n) (ed_title e) (ed_content e))"
    using sel' ed id' tm
    by (simp add: fire_def rerender_def Let_def k pending_def)
  show "length (update_calls (fire tm s)) = Suc (length (update_calls s))"
    by (simp add: fire_def rerender_frame Let_def)
qed

text \<open>
  Claim C1 on the code.  The note \<open>a\<close> is opened at time 0, its title is edited at time
  0 and again at time 100, and nothing is done afterwards.  Nothing is sent to
  \<^verbatim>\<open>updateNote\<close> before time 300; at time 300 the second edit's title is sent; the
  first edit's title is never sent.  But the call at 300 re-renders \<^verbatim>\<open>App\<close>, the editor
  receives a new \<^verbatim>\<open>onChange\<close>, the effect runs again, and the same values are sent a
  second time at 500 (and a third time at 700, and so on).
\<close>

theorem debounce_commit_repeats:
  "update_calls (advance 299 (play
       [(0, Click_select ''a''), (0, Type_title ''Shop''), (100, Type_title ''Shop list'')]
       (start [noteA, noteB]))) = []
   \<and> update_calls (advance 300 (play
       [(0, Click_select ''a''), (0, Type_title ''Shop''), (100, Type_title ''Shop list'')]
       (start [noteA, noteB])))
     = [(300, ''a'', \<lparr>patch_title = Some ''Shop list'', patch_content = Some ''milk''\<rparr>)]
   \<and> update_calls (advance 500 (play
       [(0, Click_select ''a''), (0, Type_title ''Shop''), (100, Type_title ''Shop list'')]
       (start [noteA, noteB])))
     = [(300, ''a'', \<lparr>patch_title = Some ''Shop list'', patch_content = Some ''milk''\<rparr>),
        (500, ''a'', \<lparr>patch_title = Some ''Shop list'', patch_content = Some ''milk''\<rparr>)]
   \<and> update_calls (advance 700 (play
       [(0, Click_select ''a''), (0, Type_title ''Shop''), (100, Type_title ''Shop list'')]
       (start [noteA, noteB])))
     = [(300, ''a'', \<lparr>patch_title = Some ''Shop list'', patch_content = Some ''milk''\<rparr>),
        (500, ''a'', \<lparr>patch_title = Some ''Shop list'', patch_content = Some ''milk''\<rparr>),
        (700, ''a'', \<lparr>patch_title = Some ''Shop list'', patch_content = Some ''milk''\<rparr>)]"
  by code_simp

section \<open>Properties of persistence\<close>

lemma char_code_eq: "(c = d) = ((of_char c :: nat) = of_char d)"
  by simp

lemma hexVal_hexDigit: "d < 16 \<Longrightarrow> hexVal (hexDigit d) = Some d"
  by (auto simp: hexVal_def hexDigit_def Let_def)

lemma hex4_control:
  "k < 32 \<Longrightarrow> hex4 (CHR ''0'') (CHR ''0'') (hexDigit (k div 16)) (hexDigit (k mod 16)) = Some k"
proof -
  assume k: "k < 32"
  have z: "hexVal (CHR ''0'') = Some 0" by (simp add: hexVal_def)
  from k have "k div 16 < 16" by simp
  then have a: "hexVal (hexDigit (k div 16)) = Some (k div 16)" by (rule hexVal_hexDigit)
  have b: "hexVal (hexDigit (k mod 16)) = Some (k mod 16)" by (rule hexVal_hexDigit) simp
  show ?thesis by (simp add: hex4_def z a b)
qed

lemma char_by_code: "of_char c = (n :: nat) \<Longrightarrow> c = char_of n"
  by auto

lemma lexChar_escape:
  assumes "of_char c = (n :: nat)" and "n \<in> {8, 9, 10, 12, 13, 34, 92}"
  shows "lexChar (quoteChar c @ rest) = Some (c, rest)"
proof -
  from assms(2) consider "n = 8" | "n = 9" | "n = 10" | "n = 12" | "n = 13" | "n = 34" | "n = 92"
    by auto
  then show ?thesis
  proof cases
    case 1
    with assms(1) have "c = char_of (8 :: nat)" by (simp add: char_by_code)
    then show ?thesis by (simp add: quoteChar_def lexChar_def unescape_def)
  next
    case 2
    with assms(1) have "c = char_of (9 :: nat)" by (simp add: char_by_code)
    then show ?thesis by (simp add: quoteChar_def lexChar_def unescape_def)
  next
    case 3
    with assms(1) have "c = char_of (10 :: nat)" by (simp add: char_by_code)
    then show ?thesis by (simp add: quoteChar_def lexChar_def unescape_def)
  next
    case 4
    with assms(1) have "c = char_of (12 :: nat)" by (simp add: char_by_code)
    then show ?thesis by (simp add: quoteChar_def lexChar_def unescape_def)
  next
    case 5
    with assms(1) have "c = char_of (13 :: nat)" by (simp add: char_by_code)
    then show ?thesis by (simp add: quoteChar_def lexChar_def unescape_def)
  next
    case 6
    with assms(1) have "c = CHR 0x22" by (simp add: char_code_eq [of c])
    then show ?thesis by (simp add: quoteChar_def lexChar_def unescape_def)
  next
    case 7
    with assms(1) have "c = CHR 0x5C" by (simp add: char_code_eq [of c])
    then show ?thesis by (simp add: quoteChar_def lexChar_def unescape_def)
  qed
qed

lemma lexChar_control:
  assumes "(of_char c :: nat) < 32" and "(of_char c :: nat) \<notin> {8, 9, 10, 12, 13, 34, 92}"
  shows "lexChar (quoteChar c @ rest) = Some (c, rest)"
proof -
  from assms have q: "quoteChar c = [CHR 0x5C, CHR ''u'', CHR ''0'', CHR ''0'',
      hexDigit (of_char c div 16), hexDigit (of_char c mod 16)]"
    by (simp add: quoteChar_def Let_def)
  show ?thesis
    by (simp add: q lexChar_def hex4_control [OF assms(1)] assms(1) less_trans [OF assms(1)])
qed

lemma lexChar_plain:
  assumes "\<not> (of_char c :: nat) < 32" and "(of_char c :: nat) \<notin> {8, 9, 10, 12, 13, 34, 92}"
  shows "lexChar (quoteChar c @ rest) = Some (c, rest)"
proof -
  from assms have q: "quoteChar c = [c]"
    by (simp add: quoteChar_def Let_def)
  from assms(2) have "c \<noteq> CHR 0x5C" "c \<noteq> CHR 0x22"
    by (auto simp: char_code_eq [of c])
  with assms(1) show ?thesis by (simp add: q lexChar_def)
qed

lemma lexChar_quoteChar: "lexChar (quoteChar c @ rest) = Some (c, rest)"
proof (cases "(of_char c :: nat) \<in> {8, 9, 10, 12, 13, 34, 92}")
  case True
  then show ?thesis by (rule lexChar_escape [OF refl])
next
  case False
  then show ?thesis
    by (cases "(of_char c :: nat) < 32") (simp_all add: lexChar_control lexChar_plain)
qed

lemma quoteChar_head: "\<exists>h t. quoteChar c = h # t \<and> h \<noteq> CHR 0x22"
proof (cases "(of_char c :: nat) = 34")
  case True
  then show ?thesis by (simp add: quoteChar_def)
next
  case False
  then have "c \<noteq> CHR 0x22" by (auto simp: char_code_eq [of c])
  then show ?thesis by (simp add: quoteChar_def Let_def)
qed

lemma lexString_quoteChar:
  "lexString (quoteChar c @ rest) =
     (case lexString rest of None \<Rightarrow> None | Some (s, t) \<Rightarrow> Some (c # s, t))"
proof -
  from quoteChar_head [of c] obtain h t where q: "quoteChar c = h # t" and h: "h \<noteq> CHR 0x22"
    by blast
  have "lexString (h # t @ rest) =
      (case lexChar (h # t @ rest) of None \<Rightarrow> None
       | Some (d, r) \<Rightarrow> (case lexString r of None \<Rightarrow> None | Some (s, t) \<Rightarrow> Some (d # s, t)))"
    using h by simp
  with lexChar_quoteChar [of c rest] q show ?thesis by simp
qed

lemma lexString_quoted:
  "lexString (concat (map quoteChar s) @ CHR 0x22 # rest) = Some (s, rest)"
  by (induction s) (simp_all add: lexString_quoteChar)

declare showNat.simps [simp del]

lemma digit_char: "(d :: nat) < 10 \<Longrightarrow> isDigit (char_of (48 + d)) \<and> digitVal (char_of (48 + d)) = d"
  by (simp add: isDigit_def digitVal_def)

lemma digit_char_zero: "(d :: nat) < 10 \<Longrightarrow> (char_of (48 + d) = CHR ''0'') = (d = 0)"
  by (simp add: char_code_eq [of "char_of (48 + d)"])

lemma digitsVal_snoc: "digitsVal (ds @ [c]) = 10 * digitsVal ds + digitVal c"
  by (simp add: digitsVal_def)

lemma showNat_small: "n < 10 \<Longrightarrow> showNat n = [char_of (48 + n)]"
  by (subst showNat.simps) simp

lemma showNat_large:
  "\<not> n < 10 \<Longrightarrow> showNat n = showNat (n div 10) @ [char_of (48 + n mod 10)]"
  by (subst showNat.simps) simp

lemma showNat_nonempty: "showNat n \<noteq> []"
  by (cases "n < 10") (simp_all add: showNat_small showNat_large)

lemma showNat_digits: "list_all isDigit (showNat n)"
proof (induction n rule: showNat.induct)
  case (1 n)
  show ?case
  proof (cases "n < 10")
    case True
    then show ?thesis by (simp add: showNat_small digit_char)
  next
    case False
    have "n mod 10 < 10" by simp
    with False "1.IH" show ?thesis by (simp add: showNat_large digit_char)
  qed
qed

lemma digitsVal_showNat: "digitsVal (showNat n) = n"
proof (induction n rule: showNat.induct)
  case (1 n)
  show ?case
  proof (cases "n < 10")
    case True
    then show ?thesis by (simp add: showNat_small digitsVal_def digit_char)
  next
    case False
    have "n mod 10 < 10" by simp
    with False "1.IH" show ?thesis by (simp add: showNat_large digitsVal_snoc digit_char)
  qed
qed

lemma showNat_no_leading_zero: "0 < n \<Longrightarrow> hd (showNat n) \<noteq> CHR ''0''"
proof (induction n rule: showNat.induct)
  case (1 n)
  show ?case
  proof (cases "n < 10")
    case True
    with "1.prems" show ?thesis by (simp add: showNat_small digit_char_zero)
  next
    case False
    then have "0 < n div 10" by simp
    with False "1.IH" show ?thesis by (simp add: showNat_large showNat_nonempty)
  qed
qed

lemma showNat_span:
  assumes "numberEnd rest"
  shows "takeWhile isDigit (showNat n @ rest) = showNat n"
    and "dropWhile isDigit (showNat n @ rest) = rest"
proof -
  have all: "\<forall>c \<in> set (showNat n). isDigit c"
    using showNat_digits [of n] by (simp add: list_all_iff)
  from assms have stop: "takeWhile isDigit rest = []" "dropWhile isDigit rest = rest"
    by (cases rest; simp add: numberEnd_def)+
  from all stop show "takeWhile isDigit (showNat n @ rest) = showNat n"
    by (simp add: takeWhile_append2)
  from all stop show "dropWhile isDigit (showNat n @ rest) = rest"
    by (simp add: dropWhile_append2)
qed

lemma lexNat_showNat: "numberEnd rest \<Longrightarrow> lexNat (showNat n @ rest) = Some (n, rest)"
proof -
  assume e: "numberEnd rest"
  have lead: "\<not> (hd (showNat n) = CHR ''0'' \<and> length (showNat n) > 1)"
  proof (cases "n = 0")
    case True
    then show ?thesis by (simp add: showNat_small)
  next
    case False
    then show ?thesis by (simp add: showNat_no_leading_zero)
  qed
  from e have frac: "\<not> (rest \<noteq> [] \<and> hd rest \<in> {CHR ''.'', CHR ''e'', CHR ''E''})"
    by (cases rest) (auto simp: numberEnd_def)
  from lead frac show ?thesis
    by (simp add: lexNat_def Let_def showNat_span [OF e] showNat_nonempty digitsVal_showNat
             del: insert_iff)
qed

lemma showNat_head: "\<exists>c r. showNat n = c # r \<and> isDigit c"
  using showNat_nonempty [of n] showNat_digits [of n] by (cases "showNat n") auto

lemma minus_not_digit: "\<not> isDigit (CHR ''-'')"
  by (simp add: isDigit_def)

lemma lexNumber_showInt: "numberEnd rest \<Longrightarrow> lexNumber (showInt i @ rest) = Some (i, rest)"
proof (cases "i < 0")
  case True
  assume "numberEnd rest"
  with True show ?thesis by (simp add: lexNumber_def showInt_def lexNat_showNat)
next
  case False
  assume e: "numberEnd rest"
  from showNat_head [of "nat i"] obtain c r where
    s: "showNat (nat i) = c # r" and d: "isDigit c" by blast
  from d minus_not_digit have "c \<noteq> CHR ''-''" by auto
  moreover from lexNat_showNat [OF e, of "nat i"] s
  have "lexNat (c # r @ rest) = Some (nat i, rest)" by simp
  ultimately show ?thesis using False by (simp add: lexNumber_def showInt_def s)
qed

lemma showInt_head: "\<exists>c r. showInt i = c # r \<and> (c = CHR ''-'' \<or> isDigit c)"
  using showNat_head [of "nat i"] by (auto simp: showInt_def)

declare lexTokens.simps(2) [simp del]

lemma lex_space: "isJsonSpace c \<Longrightarrow> lexTokens (c # cs) = lexTokens cs"
  by (simp add: lexTokens.simps(2))

lemma lex_token:
  "\<not> isJsonSpace c \<Longrightarrow> lexToken c cs = Some (tk, r) \<Longrightarrow> lexTokens r = Some ts \<Longrightarrow>
     lexTokens (c # cs) = Some (tk # ts)"
  by (simp add: lexTokens.simps(2))

lemma lex_punct:
  "punct c = Some tk \<Longrightarrow> lexTokens cs = Some ts \<Longrightarrow> lexTokens (c # cs) = Some (tk # ts)"
proof -
  assume p: "punct c = Some tk" and l: "lexTokens cs = Some ts"
  from p have "\<not> isJsonSpace c"
    by (auto simp: punct_def isJsonSpace_def split: if_splits)
  moreover from p have "lexToken c cs = Some (tk, cs)" by (simp add: lexToken_def)
  ultimately show ?thesis using l by (rule lex_token)
qed

lemma lex_string:
  assumes "lexTokens rest = Some ts"
  shows "lexTokens (quoteJSONString s @ rest) = Some (TStr s # ts)"
proof -
  have sp: "\<not> isJsonSpace (CHR 0x22)" by (simp add: isJsonSpace_def)
  have "lexToken (CHR 0x22) (concat (map quoteChar s) @ CHR 0x22 # rest) = Some (TStr s, rest)"
    by (simp add: lexToken_def punct_def lexString_quoted)
  from lex_token [OF sp this assms] show ?thesis by (simp add: quoteJSONString_def)
qed

lemma lex_number:
  assumes "lexTokens rest = Some ts" and "numberEnd rest"
  shows "lexTokens (showInt i @ rest) = Some (TNum i # ts)"
proof -
  from showInt_head [of i] obtain c r where
    s: "showInt i = c # r" and c: "c = CHR ''-'' \<or> isDigit c" by blast
  from c have sp: "\<not> isJsonSpace c" by (auto simp: isJsonSpace_def isDigit_def)
  from c have pu: "punct c = None" by (auto simp: punct_def isDigit_def)
  from c have nq: "c \<noteq> CHR 0x22" by (auto simp: isDigit_def)
  from lexNumber_showInt [OF assms(2), of i] s
  have "lexNumber (c # r @ rest) = Some (i, rest)" by simp
  with pu nq c have "lexToken c (r @ rest) = Some (TNum i, rest)"
    by (simp add: lexToken_def)
  from lex_token [OF sp this assms(1)] show ?thesis by (simp add: s)
qed

lemma lex_true: "lexTokens rest = Some ts \<Longrightarrow> lexTokens (''true'' @ rest) = Some (TTrue # ts)"
  using lex_token [of "CHR ''t''" "''rue'' @ rest" TTrue rest ts]
  by (simp add: isJsonSpace_def lexToken_def punct_def isDigit_def)

lemma lex_false: "lexTokens rest = Some ts \<Longrightarrow> lexTokens (''false'' @ rest) = Some (TFalse # ts)"
  using lex_token [of "CHR ''f''" "''alse'' @ rest" TFalse rest ts]
  by (simp add: isJsonSpace_def lexToken_def punct_def isDigit_def)

lemma lex_null: "lexTokens rest = Some ts \<Longrightarrow> lexTokens (''null'' @ rest) = Some (TNull # ts)"
  using lex_token [of "CHR ''n''" "''ull'' @ rest" TNull rest ts]
  by (simp add: isJsonSpace_def lexToken_def punct_def isDigit_def)

declare parseElems.simps [simp del] parseMembers.simps [simp del]

text \<open>Every successful parse consumes at least one token.\<close>

lemma parseValue_step:
  assumes "parseValue ts = Some (v, r)"
  shows "length r < length ts
     \<or> (\<exists>r0 vs. ts = LBrack # r0 \<and> parseElems r0 = Some (vs, r))
     \<or> (\<exists>r0 kvs. ts = LBrace # r0 \<and> parseMembers r0 = Some (kvs, r))"
proof (cases ts)
  case Nil
  with assms show ?thesis by simp
next
  case (Cons tk r0)
  show ?thesis
  proof (cases tk)
    case LBrack
    with assms Cons show ?thesis
      by (cases r0) (auto split: token.splits option.splits)
  next
    case LBrace
    with assms Cons show ?thesis
      by (cases r0) (auto split: token.splits option.splits)
  qed (use assms Cons in auto)
qed

lemma parseElems_step:
  assumes "parseElems ts = Some (vs, r)"
  shows "\<exists>v r0. parseValue ts = Some (v, r0)
           \<and> (r0 = RBrack # r
                \<or> (\<exists>r1 vs'. r0 = Comma # r1 \<and> length r1 < length ts \<and> parseElems r1 = Some (vs', r)))"
proof -
  from assms obtain v r0 where pv: "parseValue ts = Some (v, r0)"
    by (subst (asm) parseElems.simps) (auto split: option.splits)
  from assms pv have "r0 = RBrack # r
      \<or> (\<exists>r1 vs'. r0 = Comma # r1 \<and> length r1 < length ts \<and> parseElems r1 = Some (vs', r))"
    by (subst (asm) parseElems.simps)
       (cases r0; auto split: token.splits if_splits option.splits)
  with pv show ?thesis by blast
qed

lemma parseMembers_step:
  assumes "parseMembers ts = Some (kvs, r)"
  shows "\<exists>k ts0 v r0. ts = TStr k # Colon # ts0 \<and> parseValue ts0 = Some (v, r0)
           \<and> (r0 = RBrace # r
                \<or> (\<exists>r1 kvs'. r0 = Comma # r1 \<and> length r1 < length ts
                      \<and> parseMembers r1 = Some (kvs', r)))"
proof -
  from assms obtain k ts0 where ts: "ts = TStr k # Colon # ts0"
    by (subst (asm) parseMembers.simps) (auto split: list.splits token.splits)
  from assms ts obtain v r0 where pv: "parseValue ts0 = Some (v, r0)"
    by (subst (asm) parseMembers.simps) (auto split: option.splits)
  from assms ts pv have "r0 = RBrace # r
      \<or> (\<exists>r1 kvs'. r0 = Comma # r1 \<and> length r1 < length ts \<and> parseMembers r1 = Some (kvs', r))"
    by (subst (asm) parseMembers.simps)
       (cases r0; auto split: token.splits if_splits option.splits)
  with ts pv show ?thesis by blast
qed

lemma parse_consumes_all:
  "(\<forall>v r. parseValue ts = Some (v, r) \<longrightarrow> length r < length ts)
   \<and> (\<forall>vs r. parseElems ts = Some (vs, r) \<longrightarrow> length r < length ts)
   \<and> (\<forall>kvs r. parseMembers ts = Some (kvs, r) \<longrightarrow> length r < length ts)"
proof (induction ts rule: length_induct)
  case (1 ts)
  have val: "length r < length ts" if "parseValue ts = Some (v, r)" for v r
    using parseValue_step [OF that] "1.IH" by fastforce
  have elems: "length r < length ts" if "parseElems ts = Some (vs, r)" for vs r
  proof -
    from parseElems_step [OF that] obtain v r0 where pv: "parseValue ts = Some (v, r0)"
      and alt: "r0 = RBrack # r
         \<or> (\<exists>r1 vs'. r0 = Comma # r1 \<and> length r1 < length ts \<and> parseElems r1 = Some (vs', r))"
      by blast
    from val [OF pv] alt "1.IH" show ?thesis by fastforce
  qed
  have members: "length r < length ts" if "parseMembers ts = Some (kvs, r)" for kvs r
  proof -
    from parseMembers_step [OF that] obtain k ts0 v r0 where ts: "ts = TStr k # Colon # ts0"
      and pv: "parseValue ts0 = Some (v, r0)"
      and alt: "r0 = RBrace # r
         \<or> (\<exists>r1 kvs'. r0 = Comma # r1 \<and> length r1 < length ts \<and> parseMembers r1 = Some (kvs', r))"
      by blast
    from ts "1.IH" pv have "length r0 < length ts0" by fastforce
    with ts alt "1.IH" show ?thesis by fastforce
  qed
  from val elems members show ?case by blast
qed

lemma parseValue_consumes: "parseValue ts = Some (v, r) \<Longrightarrow> length r < length ts"
  using parse_consumes_all [of ts] by blast

text \<open>So the comparisons of lengths in \<open>parseElems\<close> and \<open>parseMembers\<close> always hold.\<close>

lemma parse_guards:
  "parseValue ts = Some (v, Comma # r) \<Longrightarrow> length r < length ts"
  "parseValue ts = Some (v, Comma # r) \<Longrightarrow> length r < length (TStr k # Colon # ts)"
  by (auto dest: parseValue_consumes)


lemma numberEnd_punct: "punct c = Some tk \<Longrightarrow> numberEnd (c # cs)"
  by (auto simp: punct_def numberEnd_def isDigit_def split: if_splits)

lemma lex_commaSep:
  assumes each: "\<And>x rest ts. x \<in> set xs \<Longrightarrow> lexTokens rest = Some ts \<Longrightarrow> numberEnd rest \<Longrightarrow>
                   lexTokens (f x @ rest) = Some (g x @ ts)"
      and rest: "lexTokens rest = Some ts" "numberEnd rest"
  shows "lexTokens (commaSep (map f xs) @ rest) = Some (sepTokens (map g xs) @ ts)"
  using each
proof (induction xs rule: induct_list012)
  case 1
  from rest show ?case by simp
next
  case (2 x)
  from "2.prems" [of x, OF _ rest] show ?case by simp
next
  case (3 x y r)
  have "lexTokens (commaSep (map f (y # r)) @ rest) = Some (sepTokens (map g (y # r)) @ ts)"
    by (rule "3.IH"(2)) (simp add: "3.prems")
  then have "lexTokens (CHR '','' # commaSep (map f (y # r)) @ rest)
      = Some (Comma # sepTokens (map g (y # r)) @ ts)"
    by (rule lex_punct [rotated]) (simp add: punct_def)
  moreover have "numberEnd (CHR '','' # commaSep (map f (y # r)) @ rest)"
    by (rule numberEnd_punct [of _ Comma]) (simp add: punct_def)
  ultimately have "lexTokens (f x @ CHR '','' # commaSep (map f (y # r)) @ rest)
      = Some (g x @ Comma # sepTokens (map g (y # r)) @ ts)"
    by (intro "3.prems") simp_all
  then show ?case by simp
qed

lemma lex_stringify:
  "lexTokens rest = Some ts \<Longrightarrow> numberEnd rest \<Longrightarrow>
     lexTokens (JSON_stringify v @ rest) = Some (tokens v @ ts)"
proof (induction v arbitrary: rest ts)
  case JNull
  then show ?case using lex_null [of rest ts] by simp
next
  case (JBool b)
  then show ?case using lex_true [of rest ts] lex_false [of rest ts] by simp
next
  case (JNum n)
  then show ?case by (simp add: lex_number)
next
  case (JStr s)
  then show ?case by (simp add: lex_string)
next
  case (JArr vs)
  have close: "lexTokens (CHR '']'' # rest) = Some (RBrack # ts)"
    by (rule lex_punct [OF _ JArr.prems(1)]) (simp add: punct_def)
  have cend: "numberEnd (CHR '']'' # rest)"
    by (rule numberEnd_punct [of _ RBrack]) (simp add: punct_def)
  have "lexTokens (commaSep (map JSON_stringify vs) @ CHR '']'' # rest)
      = Some (sepTokens (map tokens vs) @ RBrack # ts)"
    by (rule lex_commaSep [OF _ close cend]) (rule JArr.IH)
  then have "lexTokens (CHR ''['' # commaSep (map JSON_stringify vs) @ CHR '']'' # rest)
      = Some (LBrack # sepTokens (map tokens vs) @ RBrack # ts)"
    by (rule lex_punct [rotated]) (simp add: punct_def)
  then show ?case by simp
next
  case (JObj kvs)
  let ?f = "\<lambda>kv. quoteJSONString (fst kv) @ CHR '':'' # JSON_stringify (snd kv)"
  let ?g = "\<lambda>kv. TStr (fst kv) # Colon # tokens (snd kv)"
  have member: "lexTokens (?f kv @ r) = Some (?g kv @ us)"
    if kv: "kv \<in> set kvs" and r: "lexTokens r = Some us" "numberEnd r" for kv r us
  proof -
    have "snd kv \<in> Basic_BNFs.snds kv" by (cases kv) simp
    from JObj.IH [OF kv this r]
    have "lexTokens (JSON_stringify (snd kv) @ r) = Some (tokens (snd kv) @ us)" .
    then have "lexTokens (CHR '':'' # JSON_stringify (snd kv) @ r) = Some (Colon # tokens (snd kv) @ us)"
      by (rule lex_punct [rotated]) (simp add: punct_def)
    from lex_string [OF this, of "fst kv"] show ?thesis by simp
  qed
  have close: "lexTokens (CHR ''}'' # rest) = Some (RBrace # ts)"
    by (rule lex_punct [OF _ JObj.prems(1)]) (simp add: punct_def)
  have cend: "numberEnd (CHR ''}'' # rest)"
    by (rule numberEnd_punct [of _ RBrace]) (simp add: punct_def)
  have "lexTokens (commaSep (map ?f kvs) @ CHR ''}'' # rest)
      = Some (sepTokens (map ?g kvs) @ RBrace # ts)"
    by (rule lex_commaSep [OF _ close cend]) (rule member)
  then have "lexTokens (CHR ''{'' # commaSep (map ?f kvs) @ CHR ''}'' # rest)
      = Some (LBrace # sepTokens (map ?g kvs) @ RBrace # ts)"
    by (rule lex_punct [rotated]) (simp add: punct_def)
  then show ?case by simp
qed

lemma tokens_head: "\<exists>t r. tokens v = t # r \<and> t \<noteq> RBrack \<and> t \<noteq> RBrace"
  by (cases v) auto

lemma sepTokens_head:
  assumes "xs \<noteq> []" and "\<And>x. x \<in> set xs \<Longrightarrow> \<exists>t r. g x = t # r \<and> P t"
  shows "\<exists>t r. sepTokens (map g xs) @ rest = t # r \<and> P t"
proof (cases xs)
  case Nil
  with assms(1) show ?thesis by simp
next
  case (Cons x r)
  from assms(2) [of x] Cons obtain t r0 where "g x = t # r0" "P t" by auto
  then show ?thesis using Cons by (cases r) auto
qed

lemma parseValue_array:
  "t \<noteq> RBrack \<Longrightarrow>
     parseValue (LBrack # t # r)
       = (case parseElems (t # r) of None \<Rightarrow> None | Some (vs, r') \<Rightarrow> Some (JArr vs, r'))"
  by (cases t) simp_all

lemma parseValue_object:
  "t \<noteq> RBrace \<Longrightarrow>
     parseValue (LBrace # t # r)
       = (case parseMembers (t # r) of None \<Rightarrow> None | Some (kvs, r') \<Rightarrow> Some (makeObject kvs, r'))"
  by (cases t) simp_all

lemma parseElems_last:
  "parseValue ts = Some (v, RBrack # rest) \<Longrightarrow> parseElems ts = Some ([v], rest)"
  by (subst parseElems.simps) simp

lemma parseElems_more:
  "parseValue (us @ Comma # r) = Some (v, Comma # r) \<Longrightarrow> parseElems r = Some (vs, rest) \<Longrightarrow>
     parseElems (us @ Comma # r) = Some (v # vs, rest)"
  by (subst parseElems.simps) simp

lemma parseMembers_last:
  "parseValue ts = Some (v, RBrace # rest) \<Longrightarrow>
     parseMembers (TStr k # Colon # ts) = Some ([(k, v)], rest)"
  by (subst parseMembers.simps) simp

lemma parseMembers_more:
  "parseValue (us @ Comma # r) = Some (v, Comma # r) \<Longrightarrow> parseMembers r = Some (kvs, rest) \<Longrightarrow>
     parseMembers (TStr k # Colon # us @ Comma # r) = Some ((k, v) # kvs, rest)"
  by (subst parseMembers.simps) simp

lemma parseElems_sep:
  assumes each: "\<And>v rest. v \<in> set vs \<Longrightarrow> parseValue (tokens v @ rest) = Some (v, rest)"
      and ne: "vs \<noteq> []"
  shows "parseElems (sepTokens (map tokens vs) @ RBrack # rest) = Some (vs, rest)"
  using each ne
proof (induction vs rule: induct_list012)
  case 1
  then show ?case by simp
next
  case (2 x)
  from "2.prems"(1) [of x "RBrack # rest"] show ?case by (simp add: parseElems_last)
next
  case (3 x y r)
  have tl: "parseElems (sepTokens (map tokens (y # r)) @ RBrack # rest) = Some (y # r, rest)"
    by (rule "3.IH"(2)) (simp_all add: "3.prems"(1))
  have hd: "parseValue (tokens x @ Comma # sepTokens (map tokens (y # r)) @ RBrack # rest)
      = Some (x, Comma # sepTokens (map tokens (y # r)) @ RBrack # rest)"
    by (rule "3.prems"(1)) simp
  from parseElems_more [OF hd tl] show ?case by simp
qed

lemma parseMembers_sep:
  assumes each: "\<And>kv rest. kv \<in> set kvs \<Longrightarrow>
                   parseValue (tokens (snd kv) @ rest) = Some (snd kv, rest)"
      and ne: "kvs \<noteq> []"
  shows "parseMembers (sepTokens (map (\<lambda>kv. TStr (fst kv) # Colon # tokens (snd kv)) kvs)
            @ RBrace # rest) = Some (kvs, rest)"
  using each ne
proof (induction kvs rule: induct_list012)
  case 1
  then show ?case by simp
next
  case (2 x)
  from "2.prems"(1) [of x "RBrace # rest"] parseMembers_last [of "tokens (snd x) @ RBrace # rest" "snd x" rest "fst x"]
  show ?case by simp
next
  case (3 x y r)
  let ?g = "\<lambda>kv. TStr (fst kv) # Colon # tokens (snd kv)"
  have tl: "parseMembers (sepTokens (map ?g (y # r)) @ RBrace # rest) = Some (y # r, rest)"
    by (rule "3.IH"(2)) (simp_all add: "3.prems"(1))
  have hd: "parseValue (tokens (snd x) @ Comma # sepTokens (map ?g (y # r)) @ RBrace # rest)
      = Some (snd x, Comma # sepTokens (map ?g (y # r)) @ RBrace # rest)"
    by (rule "3.prems"(1)) simp
  from parseMembers_more [OF hd tl, of "fst x"] show ?case by simp
qed

lemma parse_tokens:
  "canonical v \<Longrightarrow> parseValue (tokens v @ rest) = Some (v, rest)"
proof (induction v arbitrary: rest)
  case (JArr vs)
  show ?case
  proof (cases "vs = []")
    case True
    then show ?thesis by simp
  next
    case False
    from sepTokens_head [OF False, of tokens "\<lambda>t. t \<noteq> RBrack" "RBrack # rest"] tokens_head
    obtain t r where h: "sepTokens (map tokens vs) @ RBrack # rest = t # r" and t: "t \<noteq> RBrack"
      by metis
    have "parseElems (sepTokens (map tokens vs) @ RBrack # rest) = Some (vs, rest)"
      using JArr.prems by (intro parseElems_sep JArr.IH False) (simp_all add: list_all_iff)
    with h have "parseElems (t # r) = Some (vs, rest)" by simp
    with parseValue_array [OF t, of r] h show ?thesis by simp
  qed
next
  case (JObj kvs)
  let ?g = "\<lambda>kv. TStr (fst kv) # Colon # tokens (snd kv)"
  from JObj.prems have mk: "makeObject kvs = JObj kvs"
    and can: "\<And>kv. kv \<in> set kvs \<Longrightarrow> canonical (snd kv)"
    by (simp_all add: list_all_iff)
  show ?case
  proof (cases "kvs = []")
    case True
    then show ?thesis by simp
  next
    case False
    have "\<exists>t r. sepTokens (map ?g kvs) @ RBrace # rest = t # r \<and> t \<noteq> RBrace"
      by (rule sepTokens_head [OF False]) simp
    then obtain t r where h: "sepTokens (map ?g kvs) @ RBrace # rest = t # r" and t: "t \<noteq> RBrace"
      by blast
    have each: "parseValue (tokens (snd kv) @ r') = Some (snd kv, r')" if "kv \<in> set kvs" for kv r'
    proof -
      have "snd kv \<in> Basic_BNFs.snds kv" by (cases kv) simp
      from JObj.IH [OF that this can [OF that]] show ?thesis .
    qed
    have "parseMembers (sepTokens (map ?g kvs) @ RBrace # rest) = Some (kvs, rest)"
      by (rule parseMembers_sep [OF each False])
    with h have "parseMembers (t # r) = Some (kvs, rest)" by simp
    with parseValue_object [OF t, of r] h mk show ?thesis by simp
  qed
qed simp_all

lemma numberEnd_Nil: "numberEnd []"
  by (simp add: numberEnd_def)

lemma JSON_parse_stringify: "canonical v \<Longrightarrow> JSON_parse (JSON_stringify v) = Inr v"
proof -
  assume c: "canonical v"
  have "lexTokens (JSON_stringify v @ []) = Some (tokens v @ [])"
    by (rule lex_stringify) (simp_all add: numberEnd_Nil)
  moreover from parse_tokens [OF c, of "[]"] have "parseValue (tokens v) = Some (v, [])" by simp
  ultimately show ?thesis by (simp add: JSON_parse_def)
qed

lemma stringify_nonempty: "JSON_stringify v \<noteq> []"
proof (cases v)
  case (JNum n)
  from showInt_head [of n] show ?thesis using JNum by auto
qed (simp_all add: quoteJSONString_def)

lemma not_index_keys:
  "\<not> isIndexKey ''id''" "\<not> isIndexKey ''title''" "\<not> isIndexKey ''content''"
  "\<not> isIndexKey ''updatedAt''"
  by (simp_all add: isIndexKey_def isDigit_def)

lemma canonical_noteJson: "canonical (noteJson n)"
  by (simp add: noteJson_def makeObject_def not_index_keys)

lemma canonical_notesJson: "canonical (notesJson ns)"
  by (simp add: notesJson_def list_all_iff canonical_noteJson)

lemma load_save_canonical: "canonical v \<Longrightarrow> load (Returns (Some (save v))) = Inr v"
  by (simp add: load_def load_try_def save_def stringify_nonempty JSON_parse_stringify)

text \<open>
  Claim C7: for every collection of notes, loading the text that \<^verbatim>\<open>save\<close> stored
  yields the collection's own value, and saving that value again stores the same text,
  character for character.
\<close>

theorem save_load_roundtrip:
  "load (Returns (Some (save (notesJson ns)))) = Inr (notesJson ns)
   \<and> map_sum id save (load (Returns (Some (save (notesJson ns))))) = Inr (save (notesJson ns))"
  by (simp add: load_save_canonical canonical_notesJson)




end
